theory Spec2Isabelle
  imports Main
begin

section \<open>Values of the component\<close>

text \<open>
  The program is the React component \<open>App\<close> of \<open>src/App.js\<close>. Its state is the ten
  \<open>useState\<close> cells of lines 11-20; its operations are the handlers and effects of
  lines 22-96 and the \<open>onPress\<close> closures of the rendered tree (lines 112-167).

  A JavaScript string is a sequence of UTF-16 code units, here natural numbers.
\<close>

type_synonym jsstring = "nat list"

definition js :: "string \<Rightarrow> jsstring" where
  "js cs = map of_char cs"

text \<open>
  \<open>String.prototype.trim\<close> removes leading and trailing white space and line
  terminators (ECMAScript \<open>WhiteSpace\<close> and \<open>LineTerminator\<close>: TAB, LF, VT, FF, CR, SP,
  NBSP, the Unicode space separators, LS, PS and the byte order mark).
\<close>

definition isWhiteSpace :: "nat \<Rightarrow> bool" where
  "isWhiteSpace c \<longleftrightarrow>
     c \<in> {0x09, 0x0A, 0x0B, 0x0C, 0x0D, 0x20, 0xA0, 0x1680,
           0x2028, 0x2029, 0x202F, 0x205F, 0x3000, 0xFEFF}
     \<or> (0x2000 \<le> c \<and> c \<le> 0x200A)"

definition trim :: "jsstring \<Rightarrow> jsstring" where
  "trim s = rev (dropWhile isWhiteSpace (rev (dropWhile isWhiteSpace s)))"

text \<open>
  The cell \<open>recording\<close> starts as \<open>null\<close> (line 12), is set to the \<open>Recording\<close>
  object of the audio library (line 47) and to \<open>undefined\<close> (line 75). Objects of the
  audio library are known by a handle, a natural number.
\<close>

datatype 'a jsref = Null | Undefined | Obj 'a

fun truthy :: "'a jsref \<Rightarrow> bool" where
  "truthy (Obj _) = True"
| "truthy _ = False"

text \<open>A saved clip: the object literal of lines 69-73.\<close>

record clip =
  name :: jsstring
  clip_recording :: "nat jsref"
  timestamp :: jsstring

text \<open>
  The state cells keep their names. The further fields are the part of the JavaScript
  run time and of the audio device that the handlers act on:
  \<^item> \<open>timers\<close>: the interval timers created by \<open>setInterval\<close> and not yet cleared;
  \<^item> \<open>effectInterval\<close>: the local \<open>interval\<close> of the last run of the timer effect,
    which the cleanup function returned at line 33 closes over;
  \<^item> \<open>loaded\<close>: the \<open>Sound\<close> objects created by \<open>createNewLoadedSoundAsync\<close> and not
    yet unloaded, each with the handle of the recording it plays;
  \<^item> \<open>listeners\<close>: the sounds on which the status callback of lines 139-144 has been
    registered and to which the audio library still delivers a status;
  \<^item> \<open>nextTimerId\<close>, \<open>nextSoundId\<close>, \<open>nextRecId\<close>: the supply of fresh handles.
\<close>

record app =
  recordings :: "clip list"
  recording :: "nat jsref"
  recordingName :: jsstring
  playing :: int
  sound :: "nat option"
  isDialogVisible :: bool
  isRecording :: bool
  timer :: nat
  isPaused :: bool
  intervalId :: "nat option"
  timers :: "nat set"
  effectInterval :: "nat option"
  nextTimerId :: nat
  loaded :: "nat \<rightharpoonup> nat"
  listeners :: "nat set"
  nextSoundId :: nat
  nextRecId :: nat

text \<open>The state after the first render (lines 11-20): nothing recorded, nothing live.\<close>

definition init :: app where
  "init = \<lparr> recordings = [], recording = Null, recordingName = [], playing = - 1,
            sound = None, isDialogVisible = False, isRecording = False, timer = 0,
            isPaused = False, intervalId = None, timers = {}, effectInterval = None,
            nextTimerId = 1, loaded = Map.empty, listeners = {}, nextSoundId = 1,
            nextRecId = 1 \<rparr>"

text \<open>
  The recording state the component shows: the icon of line 166 and the guard of the
  timer effect (line 25) read it from \<open>isRecording\<close> and \<open>isPaused\<close>.
\<close>

datatype rstate = Idle | Recording | Paused

definition recordingState :: "app \<Rightarrow> rstate" where
  "recordingState s =
     (if isRecording s then (if isPaused s then Paused else Recording) else Idle)"

section \<open>Effects\<close>

text \<open>\<open>clearInterval\<close>: clearing \<open>undefined\<close> or \<open>null\<close> does nothing.\<close>

definition clearInterval :: "nat option \<Rightarrow> app \<Rightarrow> app" where
  "clearInterval i s = (case i of None \<Rightarrow> s | Some k \<Rightarrow> s\<lparr>timers := timers s - {k}\<rparr>)"

text \<open>The test \<open>if (intervalId)\<close> of line 29: \<open>null\<close>, \<open>undefined\<close> and \<open>0\<close> are falsy.\<close>

definition truthyId :: "nat option \<Rightarrow> bool" where
  "truthyId i = (case i of None \<Rightarrow> False | Some k \<Rightarrow> k \<noteq> 0)"

text \<open>
  One run of the timer effect (lines 23-34): first the cleanup of the previous run
  (line 33), then the body. The interval callback of line 27 is the function \<open>tick\<close>
  below.
\<close>

definition timerEffect :: "app \<Rightarrow> app" where
  "timerEffect s0 =
     (let s = clearInterval (effectInterval s0) s0 in
      if isRecording s \<and> \<not> isPaused s then
        (let k = nextTimerId s in
         s\<lparr>timers := insert k (timers s), nextTimerId := Suc k,
           intervalId := Some k, effectInterval := Some k\<rparr>)
      else
        (if truthyId (intervalId s) then clearInterval (intervalId s) s else s)
          \<lparr>intervalId := None, effectInterval := None\<rparr>)"

text \<open>
  \<open>sound.unloadAsync()\<close> releases a sound; on an unloaded sound it does nothing. The
  audio library delivers no further status of an unloaded sound, so the callback
  registered on it is never called again.
\<close>

definition unloadAsync :: "nat \<Rightarrow> app \<Rightarrow> app" where
  "unloadAsync h s = s\<lparr>loaded := (loaded s)(h := None), listeners := listeners s - {h}\<rparr>"

text \<open>The cleanup of the sound effect (lines 90-96), for the sound of the last render.\<close>

definition soundCleanup :: "nat option \<Rightarrow> app \<Rightarrow> app" where
  "soundCleanup old s = (case old of None \<Rightarrow> s | Some h \<Rightarrow> unloadAsync h s)"

text \<open>
  The render that follows a handler: an effect runs again when one of its dependencies
  (line 34: \<open>isRecording\<close>, \<open>isPaused\<close>; line 96: \<open>sound\<close>) differs from the last
  render's. A handler and the render after it are one step of the model.
\<close>

definition commit :: "app \<Rightarrow> app \<Rightarrow> app" where
  "commit old new =
     (let s1 = (if (isRecording new, isPaused new) \<noteq> (isRecording old, isPaused old)
                then timerEffect new else new)
      in if sound new \<noteq> sound old then soundCleanup (sound old) s1 else s1)"

section \<open>Handlers\<close>

text \<open>
  The calls into the audio library are asynchronous and may reject; a handler takes the
  outcome as an argument (\<open>True\<close>: every awaited call resolved). A rejected \<open>await\<close>
  ends the handler before any state is set.
\<close>

text \<open>\<open>startRecording\<close> (lines 36-52); the \<open>catch\<close> only logs.\<close>

definition startRecording :: "bool \<Rightarrow> app \<Rightarrow> app" where
  "startRecording ok s =
     (if ok then
        (let h = nextRecId s in
         commit s (s\<lparr>recording := Obj h, isRecording := True, nextRecId := Suc h\<rparr>))
      else s)"

text \<open>
  \<open>stopRecording\<close> (lines 54-62). With \<open>recording\<close> \<open>null\<close> or \<open>undefined\<close> line 55
  throws a TypeError and nothing is set.
\<close>

definition stopRecording :: "bool \<Rightarrow> app \<Rightarrow> app" where
  "stopRecording ok s =
     (case recording s of
        Obj h \<Rightarrow>
          if ok then commit s (s\<lparr>isDialogVisible := True, isRecording := False, timer := 0\<rparr>)
          else s
      | _ \<Rightarrow> s)"

text \<open>
  \<open>handleSaveRecording\<close> (lines 64-79); \<open>now\<close> is the string
  \<open>new Date().toLocaleString()\<close>.
\<close>

definition handleSaveRecording :: "jsstring \<Rightarrow> app \<Rightarrow> app" where
  "handleSaveRecording now s =
     (if trim (recordingName s) \<noteq> [] then
        commit s (s\<lparr>recordings := recordings s @
                      [\<lparr>name = recordingName s, clip_recording = recording s,
                        timestamp = now\<rparr>],
                    recording := Undefined, recordingName := [],
                    isDialogVisible := False\<rparr>)
      else s)"

text \<open>\<open>togglePause\<close> (lines 81-88).\<close>

definition togglePause :: "bool \<Rightarrow> app \<Rightarrow> app" where
  "togglePause ok s =
     (case recording s of
        Obj h \<Rightarrow> if ok then commit s (s\<lparr>isPaused := \<not> isPaused s\<rparr>) else s
      | _ \<Rightarrow> s)"

text \<open>The text input (line 109) and the Cancel button (line 115).\<close>

definition changeText :: "jsstring \<Rightarrow> app \<Rightarrow> app" where
  "changeText t s = s\<lparr>recordingName := t\<rparr>"

definition cancelPress :: "app \<Rightarrow> app" where
  "cancelPress s = s\<lparr>isDialogVisible := False\<rparr>"

text \<open>
  The play button of the list item \<open>index\<close> (lines 126-145) works in three phases.
  First the audio library loads a new sound for the recording of the clip (line 127);
  the prior sound is untouched.
\<close>

definition createNewLoadedSoundAsync :: "nat \<Rightarrow> app \<Rightarrow> app" where
  "createNewLoadedSoundAsync r s =
     s\<lparr>loaded := (loaded s)(nextSoundId s \<mapsto> r), nextSoundId := Suc (nextSoundId s)\<rparr>"

text \<open>
  \<open>playHandler\<close> is the state when the handler has run lines 127-137, the load having
  resolved: the new sound is loaded and the cells \<open>sound\<close> and \<open>playing\<close> are set, but the
  component has not rendered again, so no effect has run. The closure exists for the
  rendered items only; on a clip without a recording object line 127 throws.
\<close>

definition playHandler :: "nat \<Rightarrow> app \<Rightarrow> app" where
  "playHandler index s =
     (if index < length (recordings s) then
        (case clip_recording (recordings s ! index) of
           Obj r \<Rightarrow>
             (createNewLoadedSoundAsync r s)\<lparr>sound := Some (nextSoundId s), playing := int index\<rparr>
         | _ \<Rightarrow> s)
      else s)"

text \<open>
  The whole press: the handler up to line 137, then the render that \<open>setSound\<close> and
  \<open>setPlaying\<close> cause (its sound cleanup unloads the prior sound), then \<open>playAsync\<close> and
  the registration of the callback (lines 138-144). \<open>created\<close> and \<open>played\<close> are the
  outcomes of \<open>createNewLoadedSoundAsync\<close> and of \<open>playAsync\<close>; the callback is
  registered only after \<open>playAsync\<close> has resolved.
\<close>

definition playPress :: "nat \<Rightarrow> bool \<Rightarrow> bool \<Rightarrow> app \<Rightarrow> app" where
  "playPress index created played s =
     (if index < length (recordings s) \<and> truthy (clip_recording (recordings s ! index))
         \<and> created then
        (let s2 = commit s (playHandler index s)
         in if played then s2\<lparr>listeners := insert (nextSoundId s) (listeners s2)\<rparr> else s2)
      else s)"

text \<open>\<open>Array.prototype.filter\<close> with the callback that also reads the index.\<close>

fun filteri :: "('a \<Rightarrow> nat \<Rightarrow> bool) \<Rightarrow> nat \<Rightarrow> 'a list \<Rightarrow> 'a list" where
  "filteri f i [] = []"
| "filteri f i (x # xs) = (if f x i then x # filteri f (Suc i) xs else filteri f (Suc i) xs)"

text \<open>The trash icon of the list item \<open>index\<close> (lines 155-157).\<close>

definition trashPress :: "nat \<Rightarrow> app \<Rightarrow> app" where
  "trashPress index s =
     s\<lparr>recordings := filteri (\<lambda>rec i. i \<noteq> index) 0 (recordings s)\<rparr>"

text \<open>The footer button (line 165) chooses its handler from the state of the render.\<close>

definition footerPress :: "bool \<Rightarrow> app \<Rightarrow> app" where
  "footerPress ok s =
     (if truthy (recording s)
      then (if isPaused s then togglePause ok s else stopRecording ok s)
      else startRecording ok s)"

text \<open>The callback of the interval timer \<open>k\<close> (line 27); a cleared timer never fires.\<close>

definition tick :: "nat \<Rightarrow> app \<Rightarrow> app" where
  "tick k s = (if k \<in> timers s then s\<lparr>timer := timer s + 1\<rparr> else s)"

text \<open>
  The status callback registered on the sound \<open>h\<close> (lines 139-144), called by the audio
  library with a status whose \<open>didJustFinish\<close> is the second argument; the library
  calls it for a sound in \<open>listeners\<close> only. The \<open>sound\<close> it unloads is the one of its
  own closure.
\<close>

definition statusUpdate :: "nat \<Rightarrow> bool \<Rightarrow> app \<Rightarrow> app" where
  "statusUpdate h didJustFinish s =
     (if h \<in> listeners s \<and> didJustFinish
      then unloadAsync h (s\<lparr>playing := - 1\<rparr>)
      else s)"

section \<open>The component as a transition system\<close>

text \<open>
  What can happen to the component: a press on the footer button, an edit of the name,
  Save and Cancel (in the dialog, rendered only while \<open>isDialogVisible\<close>), play and
  trash of a rendered item, the firing of an interval timer and a status update of a
  sound. Each is one step, taken with the render that follows it. The footer button
  reaches \<open>togglePause\<close> only when \<open>isPaused\<close> already holds, and no press makes it
  hold; so that pausing is covered, the system also admits a call of \<open>togglePause\<close>
  by itself.
\<close>

datatype event =
    PressFooter bool
  | InvokeTogglePause bool
  | ChangeText jsstring
  | PressSave jsstring
  | PressCancel
  | PressPlay nat bool bool
  | PressTrash nat
  | Tick nat
  | StatusUpdate nat bool

fun step :: "event \<Rightarrow> app \<Rightarrow> app" where
  "step (PressFooter ok) s = footerPress ok s"
| "step (InvokeTogglePause ok) s = togglePause ok s"
| "step (ChangeText t) s = (if isDialogVisible s then changeText t s else s)"
| "step (PressSave now) s = (if isDialogVisible s then handleSaveRecording now s else s)"
| "step PressCancel s = (if isDialogVisible s then cancelPress s else s)"
| "step (PressPlay i created played) s = playPress i created played s"
| "step (PressTrash i) s = (if i < length (recordings s) then trashPress i s else s)"
| "step (Tick k) s = tick k s"
| "step (StatusUpdate h fin) s = statusUpdate h fin s"

definition run :: "event list \<Rightarrow> app \<Rightarrow> app" where
  "run es s = foldl (\<lambda>s e. step e s) s es"

inductive reachable :: "app \<Rightarrow> bool" where
  reachable_init: "reachable init"
| reachable_step: "reachable s \<Longrightarrow> reachable (step e s)"

text \<open>Reading an array element: \<open>undefined\<close> past the end.\<close>

definition clipAt :: "clip list \<Rightarrow> nat \<Rightarrow> clip option" where
  "clipAt cs i = (if i < length cs then Some (cs ! i) else None)"

text \<open>
  The sound \<open>h\<close> is loaded and plays the recording of the clip \<open>c\<close>: it was created
  from \<open>c\<close> by line 127.
\<close>

definition soundOfClip :: "app \<Rightarrow> nat \<Rightarrow> clip \<Rightarrow> bool" where
  "soundOfClip s h c = (case loaded s h of None \<Rightarrow> False | Some r \<Rightarrow> clip_recording c = Obj r)"

section \<open>Invariants of the reachable states\<close>

text \<open>
  While capturing, \<open>recording\<close> holds the capture; while the save dialog is shown, it
  holds the stopped capture and nothing is being captured.
\<close>

definition inv_rec :: "app \<Rightarrow> bool" where
  "inv_rec s \<longleftrightarrow>
     (isRecording s \<longrightarrow> truthy (recording s)) \<and>
     (isDialogVisible s \<longrightarrow> truthy (recording s) \<and> \<not> isRecording s)"

text \<open>One interval timer is live while recording and not paused, none otherwise.\<close>

definition inv_timer :: "app \<Rightarrow> bool" where
  "inv_timer s \<longleftrightarrow>
     (if isRecording s \<and> \<not> isPaused s
      then (\<exists>k. effectInterval s = Some k \<and> timers s = {k})
      else timers s = {})"

text \<open>
  Only the sound of the cell \<open>sound\<close> can be loaded, only a loaded sound has a callback
  that is still called, and handles are handed out once.
\<close>

definition inv_sound :: "app \<Rightarrow> bool" where
  "inv_sound s \<longleftrightarrow>
     dom (loaded s) \<subseteq> set_option (sound s) \<and>
     listeners s \<subseteq> dom (loaded s) \<and>
     (\<forall>h. sound s = Some h \<longrightarrow> h < nextSoundId s)"

text \<open>
  Every clip holds a capture, no two clips hold the same one, and the capture of the cell
  \<open>recording\<close> is in no clip yet.
\<close>

definition inv_clips :: "app \<Rightarrow> bool" where
  "inv_clips s \<longleftrightarrow>
     (\<forall>c \<in> set (recordings s). \<exists>r. clip_recording c = Obj r \<and> r < nextRecId s) \<and>
     distinct (map clip_recording (recordings s)) \<and>
     (\<forall>r. recording s = Obj r \<longrightarrow>
        r < nextRecId s \<and> Obj r \<notin> clip_recording ` set (recordings s))"

section \<open>Sample sessions\<close>

text \<open>Recording one clip: start, stop, type the name, save.\<close>

definition recordClip :: "string \<Rightarrow> string \<Rightarrow> event list" where
  "recordClip n t = [PressFooter True, PressFooter True, ChangeText (js n), PressSave (js t)]"

definition threeClips :: app where
  "threeClips = run (recordClip ''a'' ''t1'' @ recordClip ''b'' ''t2'' @ recordClip ''c'' ''t3'') init"

definition playingFirst :: app where
  "playingFirst = step (PressPlay 0 True True) threeClips"

definition playingSecond :: app where
  "playingSecond = step (PressPlay 1 True True) threeClips"

definition playingLast :: app where
  "playingLast = step (PressPlay 2 True True) threeClips"

definition firstThenSecond :: app where
  "firstThenSecond = step (PressPlay 1 True True) playingFirst"

definition capturing :: app where
  "capturing = run [PressFooter True, Tick 1, Tick 1] init"

definition pausedCapture :: app where
  "pausedCapture = step (InvokeTogglePause True) capturing"

definition stoppedCapture :: app where
  "stoppedCapture = step (PressFooter True) capturing"

definition cancelledCapture :: app where
  "cancelledCapture = step PressCancel stoppedCapture"

definition idlePaused :: app where
  "idlePaused = step (InvokeTogglePause True) stoppedCapture"

section \<open>Basic facts\<close>

lemma run_Nil: "run [] s = s"
  by (simp add: run_def)

lemma run_Cons: "run (e # es) s = run es (step e s)"
  by (simp add: run_def)

lemma run_snoc: "run (es @ [e]) s = step e (run es s)"
  by (simp add: run_def)

lemma reachable_run: "reachable (run es init)"
proof (induction es rule: rev_induct)
  case Nil
  show ?case by (simp add: run_Nil reachable_init)
next
  case (snoc e es)
  then show ?case by (simp add: run_snoc reachable_step)
qed

lemmas handler_defs =
  footerPress_def startRecording_def stopRecording_def togglePause_def
  handleSaveRecording_def changeText_def cancelPress_def playPress_def playHandler_def
  createNewLoadedSoundAsync_def tick_def
  statusUpdate_def commit_def timerEffect_def clearInterval_def truthyId_def
  soundCleanup_def unloadAsync_def Let_def

lemmas sample_defs =
  recordClip_def threeClips_def playingFirst_def playingSecond_def playingLast_def
  firstThenSecond_def capturing_def pausedCapture_def stoppedCapture_def
  cancelledCapture_def idlePaused_def run_Cons run_Nil init_def js_def trim_def isWhiteSpace_def
  trashPress_def soundOfClip_def clipAt_def recordingState_def

subsection \<open>Removing one element by its index\<close>

lemma filteri_skip: "index < k \<Longrightarrow> filteri (\<lambda>rec i. i \<noteq> index) k xs = xs"
  by (induction xs arbitrary: k) auto

lemma filteri_remove: "filteri (\<lambda>rec i. i \<noteq> k + n) k xs = take n xs @ drop (Suc n) xs"
proof (induction xs arbitrary: k n)
  case Nil
  show ?case by simp
next
  case (Cons x xs)
  show ?case
  proof (cases n)
    case 0
    then show ?thesis by (simp add: filteri_skip)
  next
    case (Suc m)
    have "filteri (\<lambda>rec i. i \<noteq> Suc k + m) (Suc k) xs = take m xs @ drop (Suc m) xs"
      by (rule Cons.IH)
    with Suc show ?thesis by simp
  qed
qed

lemma trashPress_recordings:
  "recordings (trashPress i s) = take i (recordings s) @ drop (Suc i) (recordings s)"
  using filteri_remove [of 0 i "recordings s"] by (simp add: trashPress_def)

lemma distinct_remove_nth:
  assumes "distinct ys"
  shows "distinct (take i ys @ drop (Suc i) ys)"
proof -
  have "set (take i ys) \<inter> set (drop (Suc i) ys) = {}"
    using assms by (simp add: set_take_disj_set_drop_if_distinct)
  with assms show ?thesis by simp
qed

lemma set_remove_nth: "set (take i ys @ drop (Suc i) ys) \<subseteq> set ys"
  by (auto dest: in_set_takeD in_set_dropD)

subsection \<open>Each step keeps the invariants\<close>

lemma playPress_frame:
  "isRecording (playPress i c p s) = isRecording s"
  "isPaused (playPress i c p s) = isPaused s"
  "recording (playPress i c p s) = recording s"
  "isDialogVisible (playPress i c p s) = isDialogVisible s"
  "recordings (playPress i c p s) = recordings s"
  "nextRecId (playPress i c p s) = nextRecId s"
  "timers (playPress i c p s) = timers s"
  "effectInterval (playPress i c p s) = effectInterval s"
  "timer (playPress i c p s) = timer s"
  by (cases "clip_recording (recordings s ! i)"; cases "sound s";
      simp add: playPress_def playHandler_def createNewLoadedSoundAsync_def commit_def
        soundCleanup_def unloadAsync_def Let_def)+

lemmas other_defs =
  footerPress_def startRecording_def stopRecording_def togglePause_def
  handleSaveRecording_def changeText_def cancelPress_def tick_def
  statusUpdate_def commit_def timerEffect_def clearInterval_def truthyId_def
  soundCleanup_def unloadAsync_def Let_def

lemma inv_rec_step: "inv_rec s \<Longrightarrow> inv_rec (step e s)"
proof (cases e)
  case (PressPlay i c p)
  assume "inv_rec s"
  with PressPlay show ?thesis by (simp add: inv_rec_def playPress_frame)
qed (cases "recording s";
     auto simp: inv_rec_def other_defs trashPress_def
          split: if_splits option.splits jsref.splits)+

lemma inv_timer_step: "inv_timer s \<Longrightarrow> inv_timer (step e s)"
proof (cases e)
  case (PressPlay i c p)
  assume "inv_timer s"
  with PressPlay show ?thesis by (simp add: inv_timer_def playPress_frame)
qed (cases "recording s";
     auto simp: inv_timer_def other_defs trashPress_def
          split: if_splits option.splits jsref.splits)+

lemma loaded_timerEffect: "loaded (timerEffect s) = loaded s" "listeners (timerEffect s) = listeners s"
  "sound (timerEffect s) = sound s" "nextSoundId (timerEffect s) = nextSoundId s"
  by (simp_all add: timerEffect_def clearInterval_def Let_def split: option.splits)

lemma inv_sound_timerEffect: "inv_sound (timerEffect s) = inv_sound s"
  by (simp add: inv_sound_def loaded_timerEffect)

lemma inv_sound_commit_same:
  "sound new = sound old \<Longrightarrow> inv_sound new \<Longrightarrow> inv_sound (commit old new)"
  by (simp add: commit_def Let_def inv_sound_timerEffect loaded_timerEffect)

lemma inv_sound_start: "inv_sound s \<Longrightarrow> inv_sound (startRecording ok s)"
  by (auto simp: startRecording_def Let_def intro!: inv_sound_commit_same)
     (simp add: inv_sound_def)

lemma inv_sound_stop: "inv_sound s \<Longrightarrow> inv_sound (stopRecording ok s)"
  by (cases "recording s")
     (auto simp: stopRecording_def intro!: inv_sound_commit_same, simp add: inv_sound_def)

lemma inv_sound_toggle: "inv_sound s \<Longrightarrow> inv_sound (togglePause ok s)"
  by (cases "recording s")
     (auto simp: togglePause_def intro!: inv_sound_commit_same, simp add: inv_sound_def)

lemma inv_sound_save: "inv_sound s \<Longrightarrow> inv_sound (handleSaveRecording now s)"
  by (auto simp: handleSaveRecording_def intro!: inv_sound_commit_same)
     (simp add: inv_sound_def)

lemma inv_sound_play:
  assumes "inv_sound s"
  shows "inv_sound (playPress i c p s)"
proof (cases "i < length (recordings s) \<and> truthy (clip_recording (recordings s ! i)) \<and> c")
  case False
  then have "playPress i c p s = s" unfolding playPress_def by (rule if_not_P)
  with assms show ?thesis by simp
next
  case True
  then obtain r where r: "clip_recording (recordings s ! i) = Obj r"
    by (cases "clip_recording (recordings s ! i)") simp_all
  let ?h = "nextSoundId s"
  have old: "sound s \<noteq> Some ?h" using assms by (auto simp: inv_sound_def)
  have sub: "dom (loaded s) \<subseteq> set_option (sound s)" "listeners s \<subseteq> dom (loaded s)"
    using assms by (simp_all add: inv_sound_def)
  show ?thesis
  proof (cases "sound s")
    case None
    with sub have "dom (loaded s) = {}" "listeners s = {}" by auto
    with True r None show ?thesis
      by (simp add: playPress_def playHandler_def createNewLoadedSoundAsync_def commit_def
          soundCleanup_def inv_sound_def Let_def)
  next
    case (Some h)
    with old have ne: "h \<noteq> ?h" by simp
    from sub Some have d: "dom (loaded s) - {h} = {}" "listeners s - {h} = {}" by auto
    with True r Some ne show ?thesis
      by (auto simp: playPress_def playHandler_def createNewLoadedSoundAsync_def commit_def
          soundCleanup_def unloadAsync_def inv_sound_def Let_def)
  qed
qed

lemma inv_sound_status: "inv_sound s \<Longrightarrow> inv_sound (statusUpdate h fin s)"
  by (auto simp: statusUpdate_def unloadAsync_def inv_sound_def)

lemma inv_sound_step: "inv_sound s \<Longrightarrow> inv_sound (step e s)"
  by (cases e)
     (simp_all add: inv_sound_start inv_sound_stop inv_sound_toggle inv_sound_save
        inv_sound_play inv_sound_status footerPress_def,
      simp_all add: inv_sound_def changeText_def cancelPress_def trashPress_def tick_def)

lemma inv_clips_trash:
  assumes "inv_clips s"
  shows "inv_clips (trashPress i s)"
proof -
  let ?rs = "recordings s"
  have r: "recordings (trashPress i s) = take i ?rs @ drop (Suc i) ?rs"
    by (rule trashPress_recordings)
  have o: "recording (trashPress i s) = recording s" "nextRecId (trashPress i s) = nextRecId s"
    by (simp_all add: trashPress_def)
  have d: "distinct (map clip_recording (take i ?rs @ drop (Suc i) ?rs))"
    using distinct_remove_nth [of "map clip_recording ?rs" i] assms
    by (simp add: inv_clips_def take_map drop_map)
  show ?thesis
    unfolding inv_clips_def r o
    using assms d set_remove_nth [of i ?rs]
    unfolding inv_clips_def by blast
qed

lemma inv_clips_save:
  assumes "inv_rec s" "inv_clips s" "isDialogVisible s"
  shows "inv_clips (handleSaveRecording now s)"
proof -
  from assms obtain r where r: "recording s = Obj r"
    by (cases "recording s") (auto simp: inv_rec_def)
  with assms(2) show ?thesis
    by (auto simp: inv_clips_def handleSaveRecording_def commit_def timerEffect_def
        clearInterval_def truthyId_def Let_def split: option.splits)
qed

lemma inv_clips_start: "inv_clips s \<Longrightarrow> inv_clips (startRecording ok s)"
  by (auto simp: inv_clips_def startRecording_def commit_def timerEffect_def
        clearInterval_def truthyId_def Let_def split: option.splits intro: less_SucI)

lemma inv_clips_stop: "inv_clips s \<Longrightarrow> inv_clips (stopRecording ok s)"
  by (auto simp: inv_clips_def stopRecording_def commit_def timerEffect_def
        clearInterval_def truthyId_def Let_def split: option.splits jsref.splits)

lemma inv_clips_toggle: "inv_clips s \<Longrightarrow> inv_clips (togglePause ok s)"
  by (auto simp: inv_clips_def togglePause_def commit_def timerEffect_def
        clearInterval_def truthyId_def Let_def split: option.splits jsref.splits)

lemma inv_clips_play: "inv_clips s \<Longrightarrow> inv_clips (playPress i c p s)"
  by (simp add: inv_clips_def playPress_frame)

lemma inv_clips_step:
  assumes "inv_rec s" and "inv_clips s"
  shows "inv_clips (step e s)"
proof (cases e)
  case (PressFooter ok)
  with assms(2) show ?thesis
    by (simp add: footerPress_def inv_clips_start inv_clips_stop inv_clips_toggle)
next
  case (InvokeTogglePause ok)
  with assms(2) show ?thesis by (simp add: inv_clips_toggle)
next
  case (ChangeText t)
  with assms(2) show ?thesis by (simp add: inv_clips_def changeText_def)
next
  case (PressSave now)
  with assms show ?thesis by (simp add: inv_clips_save)
next
  case PressCancel
  with assms(2) show ?thesis by (simp add: inv_clips_def cancelPress_def)
next
  case (PressPlay i c p)
  with assms(2) show ?thesis by (simp add: inv_clips_play)
next
  case (PressTrash i)
  with assms(2) show ?thesis by (simp add: inv_clips_trash)
next
  case (Tick k)
  with assms(2) show ?thesis by (simp add: inv_clips_def tick_def)
next
  case (StatusUpdate h fin)
  with assms(2) show ?thesis by (simp add: inv_clips_def statusUpdate_def unloadAsync_def)
qed

lemma reachable_inv_rec: "reachable s \<Longrightarrow> inv_rec s"
proof (induction rule: reachable.induct)
  case reachable_init
  show ?case by (simp add: inv_rec_def init_def)
next
  case (reachable_step s e)
  then show ?case by (simp add: inv_rec_step)
qed

lemma reachable_inv_timer: "reachable s \<Longrightarrow> inv_timer s"
proof (induction rule: reachable.induct)
  case reachable_init
  show ?case by (simp add: inv_timer_def init_def)
next
  case (reachable_step s e)
  then show ?case by (simp add: inv_timer_step)
qed

lemma reachable_inv_sound: "reachable s \<Longrightarrow> inv_sound s"
proof (induction rule: reachable.induct)
  case reachable_init
  show ?case by (simp add: inv_sound_def init_def)
next
  case (reachable_step s e)
  then show ?case by (simp add: inv_sound_step)
qed

lemma reachable_inv_clips: "reachable s \<Longrightarrow> inv_clips s"
proof (induction rule: reachable.induct)
  case reachable_init
  show ?case by (simp add: inv_clips_def init_def)
next
  case (reachable_step s e)
  then show ?case by (simp add: inv_clips_step reachable_inv_rec)
qed

subsection \<open>Names that trim to nothing\<close>

lemma trim_empty_iff: "trim n = [] \<longleftrightarrow> list_all isWhiteSpace n"
proof
  assume "trim n = []"
  then have a: "\<forall>x \<in> set (dropWhile isWhiteSpace n). isWhiteSpace x"
    by (simp add: trim_def)
  have "dropWhile isWhiteSpace n = []"
  proof (rule ccontr)
    assume ne: "dropWhile isWhiteSpace n \<noteq> []"
    then have "\<not> isWhiteSpace (hd (dropWhile isWhiteSpace n))" by (rule hd_dropWhile)
    moreover from ne have "hd (dropWhile isWhiteSpace n) \<in> set (dropWhile isWhiteSpace n)"
      by (rule hd_in_set)
    ultimately show False using a by blast
  qed
  then show "list_all isWhiteSpace n" by (simp add: list_all_iff)
next
  assume "list_all isWhiteSpace n"
  then have d: "dropWhile isWhiteSpace n = []" by (simp add: list_all_iff)
  show "trim n = []" unfolding trim_def d by simp
qed

subsection \<open>The timer cell\<close>

lemma timer_clearInterval: "timer (clearInterval i s) = timer s"
  by (cases i) (simp_all add: clearInterval_def)

lemma timer_timerEffect: "timer (timerEffect s) = timer s"
  by (simp add: timerEffect_def Let_def timer_clearInterval)

lemma timer_soundCleanup: "timer (soundCleanup old s) = timer s"
  by (cases old) (simp_all add: soundCleanup_def unloadAsync_def)

lemma timer_commit: "timer (commit old new) = timer new"
  by (simp add: commit_def Let_def timer_timerEffect timer_soundCleanup)

lemma timer_startRecording: "timer (startRecording ok s) = timer s"
  by (simp add: startRecording_def Let_def timer_commit)

lemma timer_togglePause: "timer (togglePause ok s) = timer s"
  by (cases "recording s") (simp_all add: togglePause_def timer_commit)

lemma timer_stopRecording:
  "timer (stopRecording ok s) = timer s \<or> timer (stopRecording ok s) = 0"
  by (cases "recording s") (simp_all add: stopRecording_def timer_commit)

lemma timer_playPress: "timer (playPress i c p s) = timer s"
  by (rule playPress_frame)

lemma timer_step_cases:
  "(\<exists>k. e = Tick k \<and> k \<in> timers s \<and> timer (step e s) = timer s + 1) \<or>
   timer (step e s) = timer s \<or> timer (step e s) = 0"
proof (cases e)
  case (Tick k)
  then show ?thesis by (simp add: tick_def)
next
  case (PressFooter ok)
  then show ?thesis
    using timer_stopRecording [of ok s]
    by (simp add: footerPress_def timer_startRecording timer_togglePause)
next
  case (InvokeTogglePause ok)
  then show ?thesis by (simp add: timer_togglePause)
next
  case (PressSave now)
  then show ?thesis by (simp add: handleSaveRecording_def timer_commit)
next
  case (PressPlay i c p)
  then show ?thesis by (simp add: timer_playPress)
next
  case (StatusUpdate h fin)
  then show ?thesis by (simp add: statusUpdate_def unloadAsync_def)
qed (simp_all add: changeText_def cancelPress_def trashPress_def)

text \<open>Firings of interval timers change the cell \<open>timer\<close> and nothing else.\<close>

lemma run_ticks: "\<exists>n. run (map Tick ks) s = s\<lparr>timer := n\<rparr>"
proof (induction ks arbitrary: s)
  case Nil
  have "s = s\<lparr>timer := timer s\<rparr>" by simp
  then show ?case unfolding list.map run_Nil by (rule exI)
next
  case (Cons k ks)
  obtain m where m: "step (Tick k) s = s\<lparr>timer := m\<rparr>"
    by (cases "k \<in> timers s") (auto simp: tick_def intro: that [of "timer s"])
  from Cons.IH [of "s\<lparr>timer := m\<rparr>"] obtain n
    where "run (map Tick ks) (s\<lparr>timer := m\<rparr>) = s\<lparr>timer := m\<rparr>\<lparr>timer := n\<rparr>" by blast
  then have "run (map Tick (k # ks)) s = s\<lparr>timer := n\<rparr>"
    using m by (simp add: run_Cons)
  then show ?case by (rule exI)
qed

section \<open>Playback\<close>

text \<open>
  C1, as stated, fails: the prior handle is not released first. Clip 0 is playing on
  sound 1. When the play handler of clip 1 has run lines 127-137, the new sound 2 is
  loaded and tracked and sound 1 is still loaded: two handles are alive. Sound 1 is
  unloaded only afterwards, by the cleanup of the sound effect (lines 90-96) in the
  render that \<open>setSound\<close> (line 136) causes.
\<close>

theorem playClip_release_order_counterexample:
  "playing playingFirst = 0 \<and> sound playingFirst = Some 1 \<and>
   dom (loaded playingFirst) = {1} \<and>
   sound (playHandler 1 playingFirst) = Some 2 \<and>
   playing (playHandler 1 playingFirst) = 1 \<and>
   dom (loaded (playHandler 1 playingFirst)) = {1, 2}"
  by (auto simp: sample_defs handler_defs)

text \<open>
  C1, amended. In every reachable state in which a clip \<open>p\<close> is playing (the cell
  \<open>sound\<close> holds a loaded sound \<open>h\<close>), the play button of another clip \<open>j\<close> first
  loads the new sound, so that at the end of the handler both \<open>h\<close> and the new sound
  are loaded; the render that follows releases \<open>h\<close>. When the press has settled
  exactly one sound is loaded: the new one, held by \<open>sound\<close>, playing the recording of
  clip \<open>j\<close>, with \<open>playing = j\<close>.
\<close>

theorem playClip_single_handle:
  assumes "reachable s"
    and "playing s = int p" and "sound s = Some h" and "h \<in> dom (loaded s)"
    and "j < length (recordings s)" and "j \<noteq> p"
  shows "dom (loaded (playHandler j s)) = {h, nextSoundId s} \<and>
         h \<noteq> nextSoundId s \<and>
         sound (playHandler j s) = Some (nextSoundId s) \<and>
         loaded (playPress j True played s) = loaded (commit s (playHandler j s)) \<and>
         h \<notin> dom (loaded (playPress j True played s)) \<and>
         dom (loaded (playPress j True played s)) = {nextSoundId s} \<and>
         sound (playPress j True played s) = Some (nextSoundId s) \<and>
         soundOfClip (playPress j True played s) (nextSoundId s) (recordings s ! j) \<and>
         recordings (playPress j True played s) = recordings s \<and>
         playing (playPress j True played s) = int j"
proof -
  from assms(1) have "inv_clips s" by (rule reachable_inv_clips)
  with assms(5) obtain r where r: "clip_recording (recordings s ! j) = Obj r"
    unfolding inv_clips_def using nth_mem by blast
  from assms(1) have "inv_sound s" by (rule reachable_inv_sound)
  with assms(3) have h: "dom (loaded s) \<subseteq> {h}" "h < nextSoundId s"
    by (simp_all add: inv_sound_def)
  from h(1) assms(4) have e: "dom (loaded s) = {h}" by blast
  from h(1) have d: "dom (loaded s) - {h} = {}" by blast
  from h(2) have ne: "nextSoundId s \<noteq> h" by simp
  have a: "dom (loaded (playHandler j s)) = {h, nextSoundId s}"
    using assms(5) r e
    by (simp add: playHandler_def createNewLoadedSoundAsync_def insert_commute)
  have b: "sound (playHandler j s) = Some (nextSoundId s)"
    using assms(5) r by (simp add: playHandler_def createNewLoadedSoundAsync_def)
  have c: "loaded (playPress j True played s) = loaded (commit s (playHandler j s))"
    using assms(5) r by (simp add: playPress_def Let_def)
  have f: "h \<notin> dom (loaded (playPress j True played s)) \<and>
         dom (loaded (playPress j True played s)) = {nextSoundId s} \<and>
         sound (playPress j True played s) = Some (nextSoundId s) \<and>
         soundOfClip (playPress j True played s) (nextSoundId s) (recordings s ! j) \<and>
         recordings (playPress j True played s) = recordings s \<and>
         playing (playPress j True played s) = int j"
    using assms(3,5) r d ne
    by (auto simp: playPress_def playHandler_def createNewLoadedSoundAsync_def commit_def
        soundCleanup_def unloadAsync_def soundOfClip_def Let_def)
  from a ne b c f show ?thesis by simp
qed

theorem playClip_single_handle_witness:
  "dom (loaded (playHandler 1 playingFirst)) = {1, 2} \<and>
   1 \<notin> dom (loaded (playPress 1 True True playingFirst)) \<and>
   dom (loaded (playPress 1 True True playingFirst)) = {2} \<and>
   sound (playPress 1 True True playingFirst) = Some 2 \<and>
   soundOfClip (playPress 1 True True playingFirst) 2 (recordings playingFirst ! 1) \<and>
   playing (playPress 1 True True playingFirst) = 1"
proof -
  have r: "reachable playingFirst"
    unfolding playingFirst_def threeClips_def by (intro reachable_step reachable_run)
  have a: "playing playingFirst = int 0" "sound playingFirst = Some 1"
    "1 \<in> dom (loaded playingFirst)" "1 < length (recordings playingFirst)"
    "nextSoundId playingFirst = 2"
    by (simp_all add: sample_defs handler_defs)
  have b: "dom (loaded (playHandler 1 playingFirst)) = {1, nextSoundId playingFirst} \<and>
         1 \<notin> dom (loaded (playPress 1 True True playingFirst)) \<and>
         dom (loaded (playPress 1 True True playingFirst)) = {nextSoundId playingFirst} \<and>
         sound (playPress 1 True True playingFirst) = Some (nextSoundId playingFirst) \<and>
         soundOfClip (playPress 1 True True playingFirst) (nextSoundId playingFirst)
           (recordings playingFirst ! 1) \<and>
         playing (playPress 1 True True playingFirst) = int 1"
    using playClip_single_handle [OF r a(1) a(2) a(3) a(4), of True] by blast
  show ?thesis using b unfolding a(5) by simp
qed

text \<open>
  C4. The spec has a second press on the playing clip stop it: playback absent, handle
  released, no new playback. Line 148 draws the pause icon on the playing item, but the
  handler of lines 126-145 has no branch for it: pressed on the playing clip 0 (sound 1),
  it loads a second sound for the same clip and plays it; \<open>playing\<close> stays 0 and only
  the first sound is released, by the cleanup of the sound effect.
\<close>

theorem playPress_same_clip_restarts:
  "playing playingFirst = 0 \<and> sound playingFirst = Some 1 \<and> dom (loaded playingFirst) = {1} \<and>
   playing (step (PressPlay 0 True True) playingFirst) = 0 \<and>
   sound (step (PressPlay 0 True True) playingFirst) = Some 2 \<and>
   dom (loaded (step (PressPlay 0 True True) playingFirst)) = {2} \<and>
   soundOfClip (step (PressPlay 0 True True) playingFirst) 2 (recordings playingFirst ! 0)"
  by (simp add: sample_defs handler_defs)



text \<open>
  C3, as stated, fails. Clip 0 is playing on sound 1; after the trash icon of clip 0 the
  sound is still tracked and loaded and \<open>playing\<close> is still 0: lines 155-157 set
  \<open>recordings\<close> only.
\<close>

theorem deleteClip_playing_counterexample:
  "playing playingFirst = 0 \<and> sound playingFirst = Some 1 \<and>
   soundOfClip playingFirst 1 (recordings playingFirst ! 0) \<and>
   playing (step (PressTrash 0) playingFirst) = 0 \<and>
   sound (step (PressTrash 0) playingFirst) = Some 1 \<and>
   loaded (step (PressTrash 0) playingFirst) 1 = Some 1"
  by (simp add: sample_defs handler_defs)

text \<open>
  C3, amended. For every valid index \<open>i\<close> the trash icon removes the clip at position
  \<open>i\<close>: the list is one shorter, the clips before \<open>i\<close> keep their index, the clips
  after it move down by one. Nothing else changes: the playing index, the tracked sound
  and the loaded sounds are as before, also when clip \<open>i\<close> was the playing one.
\<close>

theorem deleteClip_removes_only_the_clip:
  assumes "i < length (recordings s)"
  shows "length (recordings (trashPress i s)) = length (recordings s) - 1 \<and>
         (\<forall>k < i. recordings (trashPress i s) ! k = recordings s ! k) \<and>
         (\<forall>k. i \<le> k \<and> Suc k < length (recordings s) \<longrightarrow>
              recordings (trashPress i s) ! k = recordings s ! Suc k) \<and>
         trashPress i s = s\<lparr>recordings := recordings (trashPress i s)\<rparr>"
proof -
  let ?rs = "recordings s"
  have r: "recordings (trashPress i s) = take i ?rs @ drop (Suc i) ?rs"
    by (rule trashPress_recordings)
  have l: "length (take i ?rs @ drop (Suc i) ?rs) = length ?rs - 1"
    using assms by simp
  have a: "\<forall>k < i. (take i ?rs @ drop (Suc i) ?rs) ! k = ?rs ! k"
    using assms by (simp add: nth_append)
  have b: "\<forall>k. i \<le> k \<and> Suc k < length ?rs \<longrightarrow> (take i ?rs @ drop (Suc i) ?rs) ! k = ?rs ! Suc k"
    using assms by (auto simp: nth_append min_def)
  have c: "trashPress i s = s\<lparr>recordings := recordings (trashPress i s)\<rparr>"
    by (simp add: trashPress_def)
  show ?thesis using l a b c unfolding r by blast
qed

theorem deleteClip_removes_only_the_clip_witness:
  "map name (recordings (trashPress 0 playingFirst)) = [js ''b'', js ''c''] \<and>
   playing (trashPress 0 playingFirst) = 0 \<and>
   sound (trashPress 0 playingFirst) = Some 1 \<and>
   loaded (trashPress 0 playingFirst) 1 = Some 1"
proof -
  have a: "0 < length (recordings playingFirst)"
    by (simp add: sample_defs handler_defs)
  have b: "playing playingFirst = 0" "sound playingFirst = Some 1"
    "loaded playingFirst 1 = Some 1"
    by (simp_all add: sample_defs handler_defs)
  from deleteClip_removes_only_the_clip [OF a]
  have c: "trashPress 0 playingFirst
           = playingFirst\<lparr>recordings := recordings (trashPress 0 playingFirst)\<rparr>"
    by blast
  have p: "playing (trashPress 0 playingFirst) = 0 \<and> sound (trashPress 0 playingFirst) = Some 1
         \<and> loaded (trashPress 0 playingFirst) 1 = Some 1"
    using b by (subst c, subst (2) c, subst (3) c) simp
  have "map name (recordings (trashPress 0 playingFirst)) = [js ''b'', js ''c'']"
    by (simp add: sample_defs handler_defs)
  with p show ?thesis by simp
qed

text \<open>
  C10, as stated, fails when the playing clip is the last one. Clip 2 of three is playing
  on sound 1; after the trash icon of clip 0 the list has two entries and \<open>playing\<close>
  is still 2: the index designates no clip (\<open>recordings[2]\<close> is \<open>undefined\<close>), so no
  entry draws the pause icon of line 148, rather than a wrong one.
\<close>

theorem deleteClip_last_playing_counterexample:
  "playing playingLast = 2 \<and> sound playingLast = Some 1 \<and>
   length (recordings playingLast) = 3 \<and>
   soundOfClip playingLast 1 (recordings playingLast ! 2) \<and>
   playing (step (PressTrash 0) playingLast) = 2 \<and>
   soundOfClip (step (PressTrash 0) playingLast) 1 (recordings playingLast ! 2) \<and>
   length (recordings (step (PressTrash 0) playingLast)) = 2 \<and>
   clipAt (recordings (step (PressTrash 0) playingLast)) 2 = None"
  by (simp add: sample_defs handler_defs)

text \<open>
  C10, amended. The trash icon never adjusts the playing index. In every reachable state
  where the clip at index \<open>p\<close> is playing (the tracked sound \<open>h\<close> plays its recording)
  and \<open>i < p\<close>, after the deletion \<open>playing\<close> is still \<open>p\<close> and \<open>h\<close> still plays
  the same clip, which now sits at index \<open>p - 1\<close>. Index \<open>p\<close> no longer designates it:
  the entry there is the clip formerly at \<open>p + 1\<close>, whose recording \<open>h\<close> does not
  play, or, when \<open>p\<close> was the last index, no entry at all.
\<close>

theorem deleteClip_keeps_playing_index:
  assumes "reachable s"
    and "playing s = int p" and "p < length (recordings s)"
    and "sound s = Some h" and "soundOfClip s h (recordings s ! p)"
    and "i < p"
  shows "playing (trashPress i s) = int p \<and>
         sound (trashPress i s) = Some h \<and>
         soundOfClip (trashPress i s) h (recordings s ! p) \<and>
         clipAt (recordings (trashPress i s)) (p - 1) = Some (recordings s ! p) \<and>
         clipAt (recordings (trashPress i s)) p \<noteq> Some (recordings s ! p) \<and>
         (case clipAt (recordings (trashPress i s)) p of
            None \<Rightarrow> p = length (recordings (trashPress i s))
          | Some c \<Rightarrow> c = recordings s ! Suc p \<and> \<not> soundOfClip (trashPress i s) h c)"
proof -
  let ?rs = "recordings s"
  let ?new = "take i ?rs @ drop (Suc i) ?rs"
  have r: "recordings (trashPress i s) = ?new" by (rule trashPress_recordings)
  have o: "playing (trashPress i s) = playing s" "sound (trashPress i s) = sound s"
    "loaded (trashPress i s) = loaded s"
    by (simp_all add: trashPress_def)
  from assms(1) have "inv_clips s" by (rule reachable_inv_clips)
  then have d: "distinct (map clip_recording ?rs)" by (simp add: inv_clips_def)
  have len: "length ?new = length ?rs - 1" using assms(3,6) by simp
  have prev: "?new ! (p - 1) = ?rs ! p"
    using assms(3,6) by (simp add: nth_append min_def)
  have nxt: "Suc p < length ?rs \<Longrightarrow> ?new ! p = ?rs ! Suc p"
    using assms(6) by (simp add: nth_append min_def)
  have ne: "Suc p < length ?rs \<Longrightarrow> clip_recording (?rs ! Suc p) \<noteq> clip_recording (?rs ! p)"
  proof -
    assume l: "Suc p < length ?rs"
    then have "map clip_recording ?rs ! Suc p \<noteq> map clip_recording ?rs ! p"
      using d assms(3) by (simp add: nth_eq_iff_index_eq del: nth_map)
    with l assms(3) show ?thesis by simp
  qed
  from assms(5) obtain q where q: "loaded s h = Some q" "clip_recording (?rs ! p) = Obj q"
    by (auto simp: soundOfClip_def split: option.splits)
  have s1: "soundOfClip (trashPress i s) h (?rs ! p)"
    using assms(5) by (simp add: soundOfClip_def o)
  have c1: "clipAt ?new (p - 1) = Some (?rs ! p)"
    using prev len assms(3,6) by (simp add: clipAt_def)
  show ?thesis
  proof (cases "Suc p < length ?rs")
    case True
    then have "clipAt ?new p = Some (?rs ! Suc p)"
      using nxt len by (simp add: clipAt_def)
    moreover have "\<not> soundOfClip (trashPress i s) h (?rs ! Suc p)"
      using ne [OF True] q by (simp add: soundOfClip_def o)
    moreover have "?rs ! Suc p \<noteq> ?rs ! p" using ne [OF True] by auto
    ultimately show ?thesis using s1 c1 assms(2,4) by (simp add: r o)
  next
    case False
    with assms(3) have "p = length ?new" using len by simp
    then have "clipAt ?new p = None" by (simp add: clipAt_def)
    with \<open>p = length ?new\<close> show ?thesis using s1 c1 assms(2,4) by (simp add: r o)
  qed
qed

theorem deleteClip_keeps_playing_index_witness:
  "(playing (trashPress 0 playingSecond) = int 1 \<and>
    sound (trashPress 0 playingSecond) = Some 1 \<and>
    soundOfClip (trashPress 0 playingSecond) 1 (recordings playingSecond ! 1) \<and>
    clipAt (recordings (trashPress 0 playingSecond)) (1 - 1) = Some (recordings playingSecond ! 1) \<and>
    clipAt (recordings (trashPress 0 playingSecond)) 1 \<noteq> Some (recordings playingSecond ! 1) \<and>
    (case clipAt (recordings (trashPress 0 playingSecond)) 1 of
       None \<Rightarrow> 1 = length (recordings (trashPress 0 playingSecond))
     | Some c \<Rightarrow> c = recordings playingSecond ! Suc 1 \<and>
         \<not> soundOfClip (trashPress 0 playingSecond) 1 c)) \<and>
   map name (recordings playingSecond) = [js ''a'', js ''b'', js ''c''] \<and>
   map name (recordings (trashPress 0 playingSecond)) = [js ''b'', js ''c'']"
proof -
  have r: "reachable playingSecond"
    unfolding playingSecond_def threeClips_def by (intro reachable_step reachable_run)
  have a: "playing playingSecond = int 1" "1 < length (recordings playingSecond)"
    "sound playingSecond = Some 1" "soundOfClip playingSecond 1 (recordings playingSecond ! 1)"
    "(0::nat) < 1"
    by (simp_all add: sample_defs handler_defs)
  have c: "map name (recordings playingSecond) = [js ''a'', js ''b'', js ''c'']"
    "map name (recordings (trashPress 0 playingSecond)) = [js ''b'', js ''c'']"
    by (simp_all add: sample_defs handler_defs)
  from conjI [OF deleteClip_keeps_playing_index [OF r a] conjI [OF c(1) c(2)]]
  show ?thesis .
qed

section \<open>Recording\<close>

text \<open>
  C2. Save with a name that is empty or consists of white space only changes nothing
  (no clip is added and nothing is reported). With any other name it appends one clip at
  the end of \<open>recordings\<close>, carrying the name as typed, the pending capture and the
  time stamp, and it clears the pending capture and closes the dialog.
\<close>

theorem commitClip_blank_or_append:
  "(list_all isWhiteSpace (recordingName s) \<longrightarrow> handleSaveRecording now s = s) \<and>
   (\<not> list_all isWhiteSpace (recordingName s) \<longrightarrow>
      recordings (handleSaveRecording now s) =
        recordings s @ [\<lparr>name = recordingName s, clip_recording = recording s,
                         timestamp = now\<rparr>] \<and>
      recording (handleSaveRecording now s) = Undefined \<and>
      isDialogVisible (handleSaveRecording now s) = False)"
proof (cases "list_all isWhiteSpace (recordingName s)")
  case True
  then have "trim (recordingName s) = []" by (simp add: trim_empty_iff)
  with True show ?thesis by (simp add: handleSaveRecording_def)
next
  case False
  then have "trim (recordingName s) \<noteq> []" by (simp add: trim_empty_iff)
  with False show ?thesis
    by (simp add: handleSaveRecording_def commit_def)
qed

theorem commitClip_blank_or_append_witness:
  "handleSaveRecording (js ''t'') (changeText (js ''  '') stoppedCapture)
     = changeText (js ''  '') stoppedCapture \<and>
   recordings (handleSaveRecording (js ''t'') (changeText (js ''Take 1'') stoppedCapture))
     = [\<lparr>name = js ''Take 1'', clip_recording = Obj 1, timestamp = js ''t''\<rparr>] \<and>
   recording (handleSaveRecording (js ''t'') (changeText (js ''Take 1'') stoppedCapture))
     = Undefined"
proof -
  have a: "list_all isWhiteSpace (recordingName (changeText (js ''  '') stoppedCapture))"
    by (simp add: changeText_def js_def isWhiteSpace_def)
  have b: "\<not> list_all isWhiteSpace (recordingName (changeText (js ''Take 1'') stoppedCapture))"
    by (simp add: changeText_def js_def isWhiteSpace_def)
  have c: "recordings (changeText (js ''Take 1'') stoppedCapture) = []"
    "recording (changeText (js ''Take 1'') stoppedCapture) = Obj 1"
    "recordingName (changeText (js ''Take 1'') stoppedCapture) = js ''Take 1''"
    by (simp_all add: sample_defs handler_defs)
  from commitClip_blank_or_append [of "changeText (js ''  '') stoppedCapture" "js ''t''"]
       commitClip_blank_or_append [of "changeText (js ''Take 1'') stoppedCapture" "js ''t''"]
       a b c
  show ?thesis by simp
qed

text \<open>
  C6, as stated, fails. After start and stop the component is Idle and the cell
  \<open>recording\<close> still holds the capture: \<open>stopRecording\<close> (lines 54-62) does not clear
  it, \<open>handleSaveRecording\<close> reads it at line 71.
\<close>

theorem handle_kept_while_idle_counterexample:
  "reachable stoppedCapture \<and> recordingState stoppedCapture = Idle \<and>
   recording stoppedCapture = Obj 1 \<and> truthy (recording stoppedCapture)"
proof -
  have "reachable stoppedCapture"
    unfolding stoppedCapture_def capturing_def by (intro reachable_step reachable_run)
  then show ?thesis by (simp add: sample_defs handler_defs)
qed

text \<open>
  C6, amended. In every reachable state a capture is held whenever the recording state
  is not Idle (while Recording and while Paused). The converse does not hold: while the
  save dialog is shown the state is Idle and the stopped capture is still held.
\<close>

theorem handle_held_while_not_idle:
  assumes "reachable s"
  shows "(recordingState s \<noteq> Idle \<longrightarrow> truthy (recording s)) \<and>
         (isDialogVisible s \<longrightarrow> recordingState s = Idle \<and> truthy (recording s))"
  using reachable_inv_rec [OF assms] by (simp add: inv_rec_def recordingState_def)

theorem handle_held_while_not_idle_witness:
  "recordingState capturing = Recording \<and> truthy (recording capturing) \<and>
   recordingState pausedCapture = Paused \<and> truthy (recording pausedCapture) \<and>
   isDialogVisible stoppedCapture \<and> recordingState stoppedCapture = Idle \<and>
   truthy (recording stoppedCapture)"
proof -
  have r: "reachable capturing" "reachable pausedCapture" "reachable stoppedCapture"
    unfolding stoppedCapture_def pausedCapture_def capturing_def
    by (intro reachable_step reachable_run)+
  have a: "recordingState capturing = Recording" "recordingState pausedCapture = Paused"
    "isDialogVisible stoppedCapture"
    by (simp_all add: sample_defs handler_defs)
  from handle_held_while_not_idle [OF r(1)] handle_held_while_not_idle [OF r(2)]
       handle_held_while_not_idle [OF r(3)] a
  show ?thesis by simp
qed

text \<open>
  C7. Start, pause, resume, stop, each call resolving, from any Idle state, with any
  firings of interval timers in between: the final state is Idle with \<open>timer = 0\<close>,
  the save dialog is shown and \<open>recording\<close> holds the capture that was started. When
  \<open>isPaused\<close> is not set at the start, the states passed are Recording, Paused,
  Recording.
\<close>

theorem start_pause_resume_stop:
  assumes "recordingState s = Idle"
  shows "recordingState (stopRecording True (run (map Tick k3) (togglePause True
            (run (map Tick k2) (togglePause True
            (run (map Tick k1) (startRecording True s))))))) = Idle \<and>
         timer (stopRecording True (run (map Tick k3) (togglePause True
            (run (map Tick k2) (togglePause True
            (run (map Tick k1) (startRecording True s))))))) = 0 \<and>
         isDialogVisible (stopRecording True (run (map Tick k3) (togglePause True
            (run (map Tick k2) (togglePause True
            (run (map Tick k1) (startRecording True s))))))) \<and>
         recording (stopRecording True (run (map Tick k3) (togglePause True
            (run (map Tick k2) (togglePause True
            (run (map Tick k1) (startRecording True s))))))) = Obj (nextRecId s) \<and>
         (\<not> isPaused s \<longrightarrow>
            recordingState (run (map Tick k1) (startRecording True s)) = Recording \<and>
            recordingState (run (map Tick k2) (togglePause True
               (run (map Tick k1) (startRecording True s)))) = Paused \<and>
            recordingState (run (map Tick k3) (togglePause True
               (run (map Tick k2) (togglePause True
               (run (map Tick k1) (startRecording True s)))))) = Recording)"
proof -
  define s1 where "s1 = startRecording True s"
  obtain n1 where t1: "run (map Tick k1) s1 = s1\<lparr>timer := n1\<rparr>"
    using run_ticks by blast
  define s2 where "s2 = togglePause True (s1\<lparr>timer := n1\<rparr>)"
  obtain n2 where t2: "run (map Tick k2) s2 = s2\<lparr>timer := n2\<rparr>"
    using run_ticks by blast
  define s3 where "s3 = togglePause True (s2\<lparr>timer := n2\<rparr>)"
  obtain n3 where t3: "run (map Tick k3) s3 = s3\<lparr>timer := n3\<rparr>"
    using run_ticks by blast
  define s4 where "s4 = stopRecording True (s3\<lparr>timer := n3\<rparr>)"
  have f1: "isRecording s1" "isPaused s1 = isPaused s" "recording s1 = Obj (nextRecId s)"
    by (simp_all add: s1_def startRecording_def commit_def timerEffect_def
        clearInterval_def truthyId_def Let_def split: option.splits)
  have f2: "isRecording s2" "isPaused s2 = (\<not> isPaused s)" "recording s2 = Obj (nextRecId s)"
    using f1 by (simp_all add: s2_def togglePause_def commit_def timerEffect_def
        clearInterval_def truthyId_def Let_def split: option.splits)
  have f3: "isRecording s3" "isPaused s3 = isPaused s" "recording s3 = Obj (nextRecId s)"
    using f2 by (simp_all add: s3_def togglePause_def commit_def timerEffect_def
        clearInterval_def truthyId_def Let_def split: option.splits)
  have f4: "\<not> isRecording s4" "timer s4 = 0" "isDialogVisible s4"
    "recording s4 = Obj (nextRecId s)"
    using f3 by (simp_all add: s4_def stopRecording_def commit_def timerEffect_def
        clearInterval_def truthyId_def Let_def split: option.splits)
  have e1: "run (map Tick k1) (startRecording True s) = s1\<lparr>timer := n1\<rparr>"
    using t1 by (simp add: s1_def)
  have e2: "run (map Tick k2) (togglePause True (s1\<lparr>timer := n1\<rparr>)) = s2\<lparr>timer := n2\<rparr>"
    using t2 by (simp add: s2_def)
  have e3: "run (map Tick k3) (togglePause True (s2\<lparr>timer := n2\<rparr>)) = s3\<lparr>timer := n3\<rparr>"
    using t3 by (simp add: s3_def)
  show ?thesis
    unfolding e1 e2 e3 s4_def [symmetric]
    using f1 f2 f3 f4 by (simp add: recordingState_def)
qed

theorem start_pause_resume_stop_witness:
  "recordingState (stopRecording True (run (map Tick [2, 2, 2]) (togglePause True
      (run (map Tick [1, 1]) (togglePause True
      (run (map Tick [1, 1, 1]) (startRecording True init))))))) = Idle \<and>
   timer (stopRecording True (run (map Tick [2, 2, 2]) (togglePause True
      (run (map Tick [1, 1]) (togglePause True
      (run (map Tick [1, 1, 1]) (startRecording True init))))))) = 0 \<and>
   isDialogVisible (stopRecording True (run (map Tick [2, 2, 2]) (togglePause True
      (run (map Tick [1, 1]) (togglePause True
      (run (map Tick [1, 1, 1]) (startRecording True init))))))) \<and>
   recordingState (run (map Tick [1, 1]) (togglePause True
      (run (map Tick [1, 1, 1]) (startRecording True init)))) = Paused \<and>
   isPaused idlePaused \<and>
   recordingState (stopRecording True (run (map Tick []) (togglePause True
      (run (map Tick []) (togglePause True
      (run (map Tick [2]) (startRecording True idlePaused))))))) = Idle \<and>
   timer (stopRecording True (run (map Tick []) (togglePause True
      (run (map Tick []) (togglePause True
      (run (map Tick [2]) (startRecording True idlePaused))))))) = 0"
proof -
  have a: "recordingState init = Idle" "\<not> isPaused init"
    by (simp_all add: init_def recordingState_def)
  have b: "recordingState idlePaused = Idle" "isPaused idlePaused"
    by (simp_all add: sample_defs handler_defs)
  from start_pause_resume_stop [OF a(1), of "[2, 2, 2]" "[1, 1]" "[1, 1, 1]"] a(2)
       start_pause_resume_stop [OF b(1), of "[]" "[]" "[2]"] b(2)
  show ?thesis by simp
qed

text \<open>
  C8. The cell \<open>timer\<close> advances only while Recording. In every reachable Recording
  state exactly one interval timer is live and its firing adds exactly 1. In every
  reachable state, a step that increases \<open>timer\<close> is the firing of the live interval
  timer in a Recording state and adds exactly 1; so no step increases it while Paused or
  Idle. (One firing stands for one second; the model has no clock.)
\<close>

theorem timer_advances_only_while_recording:
  assumes "reachable s"
  shows "(recordingState s = Recording \<longrightarrow>
            (\<exists>k. timers s = {k} \<and> timer (step (Tick k) s) = timer s + 1)) \<and>
         (timer s < timer (step e s) \<longrightarrow>
            recordingState s = Recording \<and> timer (step e s) = timer s + 1 \<and>
            (\<exists>k. e = Tick k \<and> timers s = {k}))"
proof -
  from assms have t: "inv_timer s" by (rule reachable_inv_timer)
  have a: "recordingState s = Recording \<longrightarrow>
            (\<exists>k. timers s = {k} \<and> timer (step (Tick k) s) = timer s + 1)"
  proof
    assume "recordingState s = Recording"
    then have "isRecording s \<and> \<not> isPaused s"
      by (simp add: recordingState_def split: if_splits)
    with t obtain k where "timers s = {k}" by (auto simp: inv_timer_def)
    then have "timers s = {k} \<and> timer (step (Tick k) s) = timer s + 1"
      by (simp add: tick_def)
    then show "\<exists>k. timers s = {k} \<and> timer (step (Tick k) s) = timer s + 1" by (rule exI)
  qed
  have b: "timer s < timer (step e s) \<longrightarrow>
            recordingState s = Recording \<and> timer (step e s) = timer s + 1 \<and>
            (\<exists>k. e = Tick k \<and> timers s = {k})"
  proof
    assume lt: "timer s < timer (step e s)"
    with timer_step_cases [of e s] obtain k
      where k: "e = Tick k" "k \<in> timers s" "timer (step e s) = timer s + 1"
      by auto
    from k(2) t have r: "isRecording s \<and> \<not> isPaused s"
      by (auto simp: inv_timer_def split: if_splits)
    with t k(2) have "timers s = {k}" by (auto simp: inv_timer_def)
    with k r show "recordingState s = Recording \<and> timer (step e s) = timer s + 1 \<and>
            (\<exists>k. e = Tick k \<and> timers s = {k})"
      by (simp add: recordingState_def)
  qed
  from a b show ?thesis by (rule conjI)
qed

theorem timer_advances_only_while_recording_witness:
  "recordingState capturing = Recording \<and>
   (\<exists>k. timers capturing = {k} \<and> timer (step (Tick k) capturing) = timer capturing + 1) \<and>
   recordingState pausedCapture = Paused \<and>
   \<not> timer pausedCapture < timer (step (Tick 1) pausedCapture) \<and>
   recordingState stoppedCapture = Idle \<and>
   \<not> timer stoppedCapture < timer (step (Tick 1) stoppedCapture)"
proof -
  have r: "reachable capturing" "reachable pausedCapture" "reachable stoppedCapture"
    unfolding stoppedCapture_def pausedCapture_def capturing_def
    by (intro reachable_step reachable_run)+
  have a: "recordingState capturing = Recording" "recordingState pausedCapture = Paused"
    "recordingState stoppedCapture = Idle"
    by (simp_all add: sample_defs handler_defs)
  have c: "\<exists>k. timers capturing = {k} \<and> timer (step (Tick k) capturing) = timer capturing + 1"
    using conjunct1 [OF timer_advances_only_while_recording [OF r(1), of "Tick 1"]] a(1)
    by (rule mp)
  have p: "\<not> timer pausedCapture < timer (step (Tick 1) pausedCapture)"
  proof
    assume "timer pausedCapture < timer (step (Tick 1) pausedCapture)"
    with conjunct2 [OF timer_advances_only_while_recording [OF r(2), of "Tick 1"]]
    have "recordingState pausedCapture = Recording" by blast
    with a(2) show False by simp
  qed
  have i: "\<not> timer stoppedCapture < timer (step (Tick 1) stoppedCapture)"
  proof
    assume "timer stoppedCapture < timer (step (Tick 1) stoppedCapture)"
    with conjunct2 [OF timer_advances_only_while_recording [OF r(3), of "Tick 1"]]
    have "recordingState stoppedCapture = Recording" by blast
    with a(3) show False by simp
  qed
  from a c p i show ?thesis by blast
qed

text \<open>
  C9. The spec has Cancel drop the pending capture. The Cancel button (line 115) only
  hides the dialog: \<open>recording\<close> keeps the stopped capture, where Save clears it
  (line 75). The footer button (line 165) therefore still chooses \<open>stopRecording\<close>:
  pressed after Cancel it stops the same capture again and never starts a new one.
\<close>

theorem cancel_keeps_pending_handle:
  "isDialogVisible stoppedCapture \<and> recording stoppedCapture = Obj 1 \<and>
   recording (step PressCancel stoppedCapture) = Obj 1 \<and>
   recording (step (PressSave (js ''t'')) (step (ChangeText (js ''Memo'')) stoppedCapture))
     = Undefined \<and>
   step (PressFooter True) cancelledCapture = stopRecording True cancelledCapture \<and>
   recording (step (PressFooter True) cancelledCapture) = Obj 1 \<and>
   recordingState (step (PressFooter True) cancelledCapture) = Idle \<and>
   step (PressFooter False) cancelledCapture = cancelledCapture"
  by (simp add: sample_defs handler_defs)

end
